theory Spec2Isabelle
  imports Main "HOL-Library.Char_ord" "HOL-Library.List_Lexorder" "HOL-Library.Multiset"
begin

section \<open>The CBOW data loader of \<^verbatim>\<open>w2v_cbow_dataloader.hpp\<close>\<close>

subsection \<open>Machine arithmetic\<close>

text \<open>
  The loader computes with \<^verbatim>\<open>uint64_t\<close> (and \<^verbatim>\<open>unsigned int\<close> for the arguments of
  \<^verbatim>\<open>SetOffset\<close> and \<^verbatim>\<open>RemoveInfrequent\<close>). Values are natural numbers; every
  addition, multiplication and subtraction of the source that can leave the range is
  written with its wrap-around. The size of a container is the length of the list that
  models it: a \<^verbatim>\<open>std::vector\<close> or \<^verbatim>\<open>std::map\<close> always has a size below \<open>2 ^ 64\<close>.
\<close>

definition u64 :: "nat \<Rightarrow> nat" where
  "u64 n = n mod 2 ^ 64"

definition u32 :: "nat \<Rightarrow> nat" where
  "u32 n = n mod 2 ^ 32"

definition u64_sub :: "nat \<Rightarrow> nat \<Rightarrow> nat" where
  \<comment> \<open>\<open>a - b\<close> on \<^verbatim>\<open>uint64_t\<close>, for operands below \<open>2 ^ 64\<close>\<close>
  "u64_sub a b = (a + 2 ^ 64 - b) mod 2 ^ 64"

subsection \<open>Errors\<close>

text \<open>
  \<^verbatim>\<open>operator[]\<close> beyond the end of a vector and a remainder by zero are undefined
  behaviour in the source; the model returns them as errors, so that every claim of
  safety is a claim that no error is returned. \<open>CalledWhenDone\<close> is not an error of the
  loader: it is returned by a caller's loop that asks for another pair although
  \<^verbatim>\<open>IsDone()\<close> holds.
\<close>

datatype error = OutOfBounds | DivisionByZero | CalledWhenDone

subsection \<open>\<^verbatim>\<open>std::map\<close> with string keys\<close>

text \<open>
  The vocabulary is a \<^verbatim>\<open>std::map<std::string, std::pair<uint64_t, uint64_t>>\<close>: an
  association list kept in strictly increasing key order, which is the order in which
  the source iterates over it. \<^verbatim>\<open>insert\<close> leaves an existing entry as it is.
\<close>

type_synonym vocab_t = "(string \<times> nat \<times> nat) list"

fun map_insert :: "string \<Rightarrow> 'v \<Rightarrow> (string \<times> 'v) list \<Rightarrow> (string \<times> 'v) list" where
  "map_insert k v [] = [(k, v)]"
| "map_insert k v ((k', v') # m) =
     (if k = k' then (k', v') # m
      else if k < k' then (k, v) # (k', v') # m
      else (k', v') # map_insert k v m)"

definition freq_incr :: "string \<Rightarrow> vocab_t \<Rightarrow> vocab_t" where
  \<comment> \<open>\<^verbatim>\<open>value.first->second.second++\<close> on the entry with key \<open>s\<close>\<close>
  "freq_incr s V = map (\<lambda>(k, i, f). if k = s then (k, i, u64 (f + 1)) else (k, i, f)) V"

subsection \<open>The loader\<close>

text \<open>
  The fields \<^verbatim>\<open>currentSentence_\<close>, \<^verbatim>\<open>currentWord_\<close>, \<^verbatim>\<open>window_size_\<close>, \<^verbatim>\<open>vocab_\<close> and
  \<^verbatim>\<open>data_\<close>. A vocabulary entry is \<open>(word, index, frequency)\<close>.
\<close>

record CBOWLoader =
  currentSentence :: nat
  currentWord :: nat
  window_size :: nat
  vocab :: vocab_t
  data :: "nat list list"

definition new_CBOWLoader :: "nat \<Rightarrow> CBOWLoader" where
  "new_CBOWLoader w =
     \<lparr>currentSentence = 0, currentWord = 0, window_size = w, vocab = [], data = []\<rparr>"

definition Size :: "CBOWLoader \<Rightarrow> nat" where
  "Size st =
     foldl (\<lambda>size s. if length s > u64 (2 * window_size st)
                      then u64 (size + (length s - u64 (2 * window_size st))) else size)
           0 (data st)"

definition IsDone :: "CBOWLoader \<Rightarrow> bool" where
  "IsDone st =
     (if data st = [] then True
      else if currentSentence st \<ge> length (data st) then True
      else if currentSentence st \<ge> length (data st) - 1 then
        (if currentWord st >
              u64_sub (length (data st ! currentSentence st)) (u64 (2 * window_size st + 1))
         then True else False)
      else False)"

text \<open>
  \<^verbatim>\<open>Reset\<close> shuffles the sentences with \<^verbatim>\<open>std::random_shuffle\<close> and rewinds the cursor.
  The permutation is not determined by the state, so \<open>Reset\<close> is a relation.
\<close>

inductive Reset :: "CBOWLoader \<Rightarrow> CBOWLoader \<Rightarrow> bool" where
  "mset d = mset (data st) \<Longrightarrow>
   Reset st (st\<lparr>data := d, currentSentence := 0, currentWord := 0\<rparr>)"

subsection \<open>\<^verbatim>\<open>SetOffset\<close>\<close>

text \<open>
  The \<^verbatim>\<open>while\<close> loop of \<^verbatim>\<open>SetOffset\<close>. It reads \<^verbatim>\<open>data_[currentSentence_]\<close> in its
  condition; the read succeeded when the body runs, so the increment of the sentence
  index stays below the size of the vector and does not wrap.
\<close>

function SetOffset_loop :: "nat list list \<Rightarrow> nat \<Rightarrow> nat \<Rightarrow> error + (nat \<times> nat)" where
  "SetOffset_loop d offset cs =
     (if \<not> cs < length d then Inl OutOfBounds
      else if offset > length (d ! cs)
        then SetOffset_loop d (u32 (u64_sub offset (length (d ! cs)))) (cs + 1)
      else Inr (offset, cs))"
  by pat_completeness auto
termination
  by (relation "measure (\<lambda>(d, offset, cs). length d - cs)") auto

declare SetOffset_loop.simps [simp del]

text \<open>
  The argument is an \<^verbatim>\<open>unsigned int\<close>, a value below \<open>2 ^ 32\<close>; each assignment to it is
  truncated to 32 bits. \<^verbatim>\<open>SetOffset\<close> starts from the current value of
  \<^verbatim>\<open>currentSentence_\<close>: the source does not rewind it.
\<close>

definition SetOffset :: "nat \<Rightarrow> CBOWLoader \<Rightarrow> error + CBOWLoader" where
  "SetOffset offset st =
     (if Size st = 0 then Inl DivisionByZero
      else case SetOffset_loop (data st) (u32 (offset mod Size st)) (currentSentence st) of
        Inl e \<Rightarrow> Inl e
      | Inr (off, cs) \<Rightarrow>
          (if off < u64_sub (length (data st ! cs)) (window_size st)
           then Inr (st\<lparr>currentSentence := cs, currentWord := off\<rparr>)
           else Inr (st\<lparr>currentSentence := cs + 1, currentWord := 0\<rparr>)))"

subsection \<open>Tokenizing\<close>

text \<open>
  \<^verbatim>\<open>std::isalpha\<close>, \<^verbatim>\<open>std::tolower\<close> and the whitespace that \<^verbatim>\<open>operator>>\<close> skips, in
  the "C" locale.
\<close>

definition isupper :: "char \<Rightarrow> bool" where
  "isupper c \<longleftrightarrow> CHR ''A'' \<le> c \<and> c \<le> CHR ''Z''"

definition islower :: "char \<Rightarrow> bool" where
  "islower c \<longleftrightarrow> CHR ''a'' \<le> c \<and> c \<le> CHR ''z''"

definition isalpha :: "char \<Rightarrow> bool" where
  "isalpha c \<longleftrightarrow> isupper c \<or> islower c"

definition tolower :: "char \<Rightarrow> char" where
  "tolower c = (if isupper c then char_of (of_char c + (32 :: nat)) else c)"

definition isspace :: "char \<Rightarrow> bool" where
  "isspace c \<longleftrightarrow> c = CHR '' '' \<or> (CHR 0x09 \<le> c \<and> c \<le> CHR 0x0D)"

text \<open>
  The loop \<^verbatim>\<open>for (std::stringstream ss(result); ss >> word;)\<close>: each extraction skips
  whitespace and reads up to the next whitespace or the end; it fails at the end of the
  stream. The second argument is the word read so far.
\<close>

fun extract_words :: "string \<Rightarrow> string \<Rightarrow> string list" where
  "extract_words [] word = (if word = [] then [] else [word])"
| "extract_words (c # cs) word =
     (if isspace c then (if word = [] then extract_words cs [] else word # extract_words cs [])
      else extract_words cs (word @ [c]))"

definition PreprocessString :: "string \<Rightarrow> string list" where
  "PreprocessString s =
     extract_words (map (\<lambda>c. if isalpha c then tolower c else CHR '' '') s) []"

subsection \<open>Ingestion\<close>

definition StringsToIndexes_step :: "nat list \<times> vocab_t \<Rightarrow> string \<Rightarrow> nat list \<times> vocab_t" where
  "StringsToIndexes_step acc s =
     (case acc of (indexes, V) \<Rightarrow>
        let V' = map_insert s (length V, 0) V in
        (case map_of V' s of
           Some (i, f) \<Rightarrow> (indexes @ [i], freq_incr s V')
         | None \<Rightarrow> (indexes, V')))"

definition StringsToIndexes :: "string list \<Rightarrow> CBOWLoader \<Rightarrow> nat list \<times> CBOWLoader" where
  "StringsToIndexes strings st =
     (if length strings \<ge> u64 (2 * window_size st + 1)
      then (case foldl StringsToIndexes_step ([], vocab st) strings of
              (indexes, V) \<Rightarrow> (indexes, st\<lparr>vocab := V\<rparr>))
      else ([], st))"

definition AddData :: "string \<Rightarrow> CBOWLoader \<Rightarrow> bool \<times> CBOWLoader" where
  "AddData s st =
     (case StringsToIndexes (PreprocessString s) st of
        (indexes, st') \<Rightarrow>
          if length indexes \<ge> u64 (2 * window_size st' + 1)
          then (True, st'\<lparr>data := data st' @ [indexes]\<rparr>)
          else (False, st'))"

definition VocabSize :: "CBOWLoader \<Rightarrow> nat" where
  "VocabSize st = length (vocab st)"


definition WordFromIndex :: "nat \<Rightarrow> CBOWLoader \<Rightarrow> string" where
  "WordFromIndex index st =
     (case find (\<lambda>(k, i, f). i = index) (vocab st) of
        Some (k, i, f) \<Rightarrow> k
      | None \<Rightarrow> [])"

subsection \<open>\<^verbatim>\<open>RemoveInfrequent\<close>\<close>

text \<open>
  \<^verbatim>\<open>reverse_vocab\<close> is a \<^verbatim>\<open>std::map<uint64_t, std::pair<std::string, uint64_t>>\<close> that is
  only read with \<^verbatim>\<open>operator[]\<close>, which gives the default pair (the empty string and 0)
  for an absent key: a total function.
\<close>

definition reverse_vocab :: "vocab_t \<Rightarrow> nat \<Rightarrow> string \<times> nat" where
  "reverse_vocab V = foldl (\<lambda>rv (k, i, f). rv(i := (k, f))) (\<lambda>_. ([], 0)) V"

definition rebuild_sentence :: "(nat \<Rightarrow> string \<times> nat) \<Rightarrow> nat \<Rightarrow> nat list \<Rightarrow> string" where
  \<comment> \<open>the inner loop of \<^verbatim>\<open>RemoveInfrequent\<close>, which builds the string \<^verbatim>\<open>s\<close>\<close>
  "rebuild_sentence rv min' sentence =
     foldl (\<lambda>s word. if snd (rv word) \<ge> min' then s @ fst (rv word) @ '' '' else s) [] sentence"

definition RemoveInfrequent :: "nat \<Rightarrow> CBOWLoader \<Rightarrow> CBOWLoader" where
  "RemoveInfrequent min' st =
     (let rv = reverse_vocab (vocab st);
          new_loader =
            foldl (\<lambda>nl sentence. snd (AddData (rebuild_sentence rv min' sentence) nl))
                  (new_CBOWLoader (window_size st)) (data st)
      in st\<lparr>data := data new_loader, vocab := vocab new_loader\<rparr>)"

subsection \<open>\<^verbatim>\<open>GetNext\<close>\<close>

text \<open>
  The tensor type and its element type \<^verbatim>\<open>T\<close> are not part of the file. A tensor of size
  \<open>n\<close> is a list of \<open>n\<close> elements, initially \<open>t0\<close>; \<^verbatim>\<open>At(i)\<close> is the \<open>i\<close>-th element;
  \<open>T\<close> is the conversion \<^verbatim>\<open>T(...)\<close> of an index to an element. Where \<^verbatim>\<open>currentSentence_\<close>
  is incremented, \<^verbatim>\<open>data_[currentSentence_]\<close> has been read before, so the index is below
  the size of the vector and the increment does not wrap.
\<close>

fun GetNext_loop ::
  "(nat \<Rightarrow> 't) \<Rightarrow> nat list \<Rightarrow> nat \<Rightarrow> nat \<Rightarrow> nat list \<Rightarrow> 't list \<Rightarrow> error + 't list" where
  "GetNext_loop T s cw w [] t = Inr t"
| "GetNext_loop T s cw w (i # is) t =
     (if u64 (cw + i) < length s \<and> u64 (cw + w + i + 1) < length s
         \<and> i < length t \<and> u64 (i + w) < length t
      then GetNext_loop T s cw w is
             (t[i := T (s ! u64 (cw + i)), u64 (i + w) := T (s ! u64 (cw + w + i + 1))])
      else Inl OutOfBounds)"

definition GetNext ::
  "(nat \<Rightarrow> 't) \<Rightarrow> 't \<Rightarrow> CBOWLoader \<Rightarrow> error + (('t list \<times> nat) \<times> CBOWLoader)" where
  "GetNext T t0 st =
     (let w = window_size st; cs = currentSentence st; cw = currentWord st in
      if \<not> cs < length (data st) then Inl OutOfBounds
      else let s = data st ! cs in
      if \<not> u64 (cw + w) < length s then Inl OutOfBounds
      else let label = s ! u64 (cw + w) in
        (case GetNext_loop T s cw w [0..<w] (replicate (u64 (w * 2)) t0) of
           Inl e \<Rightarrow> Inl e
         | Inr t \<Rightarrow>
             let cw' = u64 (cw + 1) in
             if cw' \<ge> u64_sub (length s) (u64 (2 * w))
             then Inr ((t, label), st\<lparr>currentWord := 0, currentSentence := cs + 1\<rparr>)
             else Inr ((t, label), st\<lparr>currentWord := cw'\<rparr>)))"

section \<open>Vocabulary of the specification\<close>

text \<open>
  The window at center position \<open>c + w\<close> of a sentence \<open>s\<close>: the \<open>w\<close> indices before the
  center, then the \<open>w\<close> indices after it, and the index at the center as label.
\<close>

definition window :: "(nat \<Rightarrow> 't) \<Rightarrow> nat \<Rightarrow> nat list \<Rightarrow> nat \<Rightarrow> 't list \<times> nat" where
  "window T w s c =
     (map T (take w (drop c s)) @ map T (take w (drop (c + w + 1) s)), s ! (c + w))"

text \<open>The windows of one sentence, by center position from left to right.\<close>

definition windows_of :: "(nat \<Rightarrow> 't) \<Rightarrow> nat \<Rightarrow> nat list \<Rightarrow> ('t list \<times> nat) list" where
  "windows_of T w s = map (window T w s) [0..<length s - 2 * w]"

text \<open>
  \<open>n\<close> calls of \<^verbatim>\<open>GetNext\<close>, each made only when \<^verbatim>\<open>IsDone()\<close> is false, collecting the
  pairs returned.
\<close>

fun GetNext_times ::
  "(nat \<Rightarrow> 't) \<Rightarrow> 't \<Rightarrow> nat \<Rightarrow> CBOWLoader \<Rightarrow> error + (('t list \<times> nat) list \<times> CBOWLoader)" where
  "GetNext_times T t0 0 st = Inr ([], st)"
| "GetNext_times T t0 (Suc n) st =
     (if IsDone st then Inl CalledWhenDone
      else case GetNext T t0 st of
        Inl e \<Rightarrow> Inl e
      | Inr (p, st') \<Rightarrow>
          (case GetNext_times T t0 n st' of
             Inl e \<Rightarrow> Inl e
           | Inr (ps, st'') \<Rightarrow> Inr (p # ps, st'')))"

text \<open>A sequence of \<^verbatim>\<open>AddData\<close> calls, and the token lists that it stores.\<close>

definition ingest :: "CBOWLoader \<Rightarrow> string list \<Rightarrow> CBOWLoader" where
  "ingest st strs = foldl (\<lambda>st s. snd (AddData s st)) st strs"

definition accepted :: "nat \<Rightarrow> string list \<Rightarrow> string list list" where
  "accepted w strs = filter (\<lambda>toks. u64 (2 * w + 1) \<le> length toks) (map PreprocessString strs)"

definition stored_ok :: "CBOWLoader \<Rightarrow> bool" where
  "stored_ok st \<longleftrightarrow>
     (\<forall>s \<in> set (data st). 2 * window_size st + 1 \<le> length s \<and> length s < 2 ^ 64)"

text \<open>
  \<open>first_seen h k\<close> is the number of distinct words of the token history \<open>h\<close> before the
  first occurrence of \<open>k\<close>: the size of the vocabulary at the moment \<open>k\<close> is first seen.
  \<open>vocab_of h V\<close> says that \<open>V\<close> is the vocabulary built from the history \<open>h\<close>, and
  \<open>ingested acc st\<close> that the loader \<open>st\<close> holds the token lists \<open>acc\<close>.
\<close>

definition first_seen :: "string list \<Rightarrow> string \<Rightarrow> nat" where
  "first_seen h k = card (set (takeWhile (\<lambda>x. x \<noteq> k) h))"

definition vocab_of :: "string list \<Rightarrow> vocab_t \<Rightarrow> bool" where
  "vocab_of h V \<longleftrightarrow>
     sorted_wrt (<) (map fst V)
     \<and> set V = (\<lambda>k. (k, first_seen h k, u64 (count_list h k))) ` set h"

definition ingested :: "string list list \<Rightarrow> CBOWLoader \<Rightarrow> bool" where
  "ingested acc st \<longleftrightarrow>
     vocab_of (concat acc) (vocab st)
     \<and> data st = map (map (first_seen (concat acc))) acc"

text \<open>
  The states a caller can reach through the public operations, and the invariant they
  satisfy: the vocabulary is built from a history of lowercase words, and every stored
  index is an index of the vocabulary.
\<close>

definition is_word :: "string \<Rightarrow> bool" where
  "is_word k \<longleftrightarrow> k \<noteq> [] \<and> (\<forall>c \<in> set k. islower c)"

definition consistent :: "CBOWLoader \<Rightarrow> bool" where
  "consistent st \<longleftrightarrow>
     (\<exists>h. vocab_of h (vocab st) \<and> (\<forall>k \<in> set h. is_word k)
          \<and> (\<forall>s \<in> set (data st). \<forall>i \<in> set s. i < length (vocab st)))"

inductive reachable :: "(nat \<Rightarrow> 't) \<Rightarrow> 't \<Rightarrow> CBOWLoader \<Rightarrow> bool" for T :: "nat \<Rightarrow> 't" and t0 :: 't where
  constructed: "reachable T t0 (new_CBOWLoader w)"
| after_AddData: "reachable T t0 st \<Longrightarrow> reachable T t0 (snd (AddData s st))"
| after_RemoveInfrequent: "reachable T t0 st \<Longrightarrow> reachable T t0 (RemoveInfrequent m st)"
| after_Reset: "reachable T t0 st \<Longrightarrow> Reset st st' \<Longrightarrow> reachable T t0 st'"
| after_SetOffset: "reachable T t0 st \<Longrightarrow> SetOffset offset st = Inr st' \<Longrightarrow> reachable T t0 st'"
| after_GetNext: "reachable T t0 st \<Longrightarrow> GetNext T t0 st = Inr (p, st') \<Longrightarrow> reachable T t0 st'"



text \<open>Concrete loaders for the examples.\<close>

definition stale_source :: CBOWLoader where
  "stale_source = ingest (new_CBOWLoader 1) [''a b a b c'', ''a b a'']"

definition stale_example :: CBOWLoader where
  "stale_example =
     \<lparr>currentSentence = 0, currentWord = 2, window_size = 1,
      vocab = [(''a'', 0, 4), (''b'', 1, 3)],
      data = [[0, 1, 0, 1], [0, 1, 0]]\<rparr>"

definition partition_example :: CBOWLoader where
  "partition_example = ingest (new_CBOWLoader 1) [''a b c d e'', ''f g h i j'']"

definition exhausted_example :: CBOWLoader where
  "exhausted_example = ingest (new_CBOWLoader 1) [''a b c'']"

definition pruning_example :: CBOWLoader where
  "pruning_example = ingest (new_CBOWLoader 1) [''the cat saw the dog'', ''the end is the end'']"

text \<open>
  A loader whose window size is \<open>2 ^ 63\<close>, so that \<open>2 * window_size_\<close> is 0 and
  \<open>2 * window_size_ + 1\<close> is 1 in 64-bit arithmetic.
\<close>

definition huge_window_example :: CBOWLoader where
  "huge_window_example = ingest (new_CBOWLoader 9223372036854775808) [''a'']"

section \<open>Properties\<close>

subsection \<open>Machine arithmetic without wrap-around\<close>

lemma u64_id: "n < 2 ^ 64 \<Longrightarrow> u64 n = n"
  by (simp add: u64_def)

lemma sub_mod_no_wrap:
  fixes a b M :: nat
  assumes "b \<le> a" "a < M"
  shows "(a + M - b) mod M = a - b"
proof -
  have "a + M - b = (a - b) + M" using assms(1) by arith
  moreover have "a - b < M" using assms(2) by arith
  ultimately show ?thesis by (simp only: mod_add_self2 mod_less)
qed

lemma sub_mod_wrap:
  fixes a b M :: nat
  assumes "a < b" "b \<le> M"
  shows "(a + M - b) mod M = a + M - b"
proof -
  have "a + M - b < M" using assms by arith
  then show ?thesis by (rule mod_less)
qed

lemma u64_sub_eq: "b \<le> a \<Longrightarrow> a < 2 ^ 64 \<Longrightarrow> u64_sub a b = a - b"
  unfolding u64_sub_def by (rule sub_mod_no_wrap)

lemma u64_sub_wrap: "a < b \<Longrightarrow> b \<le> 2 ^ 64 \<Longrightarrow> u64_sub a b = a + 2 ^ 64 - b"
  unfolding u64_sub_def by (rule sub_mod_wrap)

lemma u64_Suc: "u64 (Suc (u64 a)) = u64 (Suc a)"
  unfolding u64_def by (rule mod_Suc_eq)

lemma u64_less: "u64 n < 2 ^ 64"
  by (simp add: u64_def)

lemma u64_idem: "u64 (u64 n) = u64 n"
  by (simp add: u64_def)

subsection \<open>Evaluating the model on concrete loaders\<close>

lemmas tokenize_defs =
  PreprocessString_def isalpha_def isupper_def islower_def isspace_def tolower_def

lemmas ingest_defs =
  ingest_def AddData_def StringsToIndexes_def StringsToIndexes_step_def new_CBOWLoader_def
  freq_incr_def u64_def tokenize_defs

lemma replicate_2: "replicate 2 x = [x, x]"
  by (simp add: numeral_2_eq_2)

lemma GetNext_times_numeral:
  "GetNext_times T t0 (numeral k) st =
     (if IsDone st then Inl CalledWhenDone
      else case GetNext T t0 st of
        Inl e \<Rightarrow> Inl e
      | Inr (p, st') \<Rightarrow>
          (case GetNext_times T t0 (pred_numeral k) st' of
             Inl e \<Rightarrow> Inl e
           | Inr (ps, st'') \<Rightarrow> Inr (p # ps, st'')))"
  by (simp add: numeral_eq_Suc)

lemmas cursor_defs = GetNext_def IsDone_def SetOffset_def SetOffset_loop.simps Size_def
  u64_def u32_def u64_sub_def upt_conv_Cons replicate_2 GetNext_times_numeral

lemma pruning_example_eq:
  "pruning_example =
     \<lparr>currentSentence = 0, currentWord = 0, window_size = 1,
      vocab = [(''cat'', 1, 1), (''dog'', 3, 1), (''end'', 4, 2), (''is'', 5, 1), (''saw'', 2, 1),
               (''the'', 0, 4)],
      data = [[0, 1, 2, 0, 3], [0, 4, 5, 0, 4]]\<rparr>"
  unfolding pruning_example_def by (simp add: ingest_defs)

lemma pruning_example_pruned:
  "RemoveInfrequent 2 pruning_example =
     \<lparr>currentSentence = 0, currentWord = 0, window_size = 1,
      vocab = [(''end'', 1, 2), (''the'', 0, 2)],
      data = [[0, 1, 0, 1]]\<rparr>"
  unfolding pruning_example_eq
  by (simp add: RemoveInfrequent_def reverse_vocab_def rebuild_sentence_def Let_def ingest_defs)

lemma stale_source_eq:
  "stale_source =
     \<lparr>currentSentence = 0, currentWord = 0, window_size = 1,
      vocab = [(''a'', 0, 4), (''b'', 1, 3), (''c'', 2, 1)],
      data = [[0, 1, 0, 1, 2], [0, 1, 0]]\<rparr>"
  unfolding stale_source_def by (simp add: ingest_defs)

lemma partition_example_eq:
  "partition_example =
     \<lparr>currentSentence = 0, currentWord = 0, window_size = 1,
      vocab = [(''a'', 0, 1), (''b'', 1, 1), (''c'', 2, 1), (''d'', 3, 1), (''e'', 4, 1),
               (''f'', 5, 1), (''g'', 6, 1), (''h'', 7, 1), (''i'', 8, 1), (''j'', 9, 1)],
      data = [[0, 1, 2, 3, 4], [5, 6, 7, 8, 9]]\<rparr>"
  unfolding partition_example_def by (simp add: ingest_defs)

lemma exhausted_example_eq:
  "exhausted_example =
     \<lparr>currentSentence = 0, currentWord = 0, window_size = 1,
      vocab = [(''a'', 0, 1), (''b'', 1, 1), (''c'', 2, 1)],
      data = [[0, 1, 2]]\<rparr>"
  unfolding exhausted_example_def by (simp add: ingest_defs)

lemma huge_window_example_eq:
  "huge_window_example =
     \<lparr>currentSentence = 0, currentWord = 0, window_size = 9223372036854775808,
      vocab = [(''a'', 0, 1)], data = [[0]]\<rparr>"
  unfolding huge_window_example_def by (simp add: ingest_defs)

subsection \<open>\<^verbatim>\<open>Size\<close>\<close>

lemma Size_foldl:
  assumes "m < 2 ^ 64" "a + sum_list (map length xs) < 2 ^ 64"
  shows "foldl (\<lambda>size s. if length s > u64 m then u64 (size + (length s - u64 m)) else size) a xs
         = a + sum_list (map (\<lambda>s. length s - m) xs)"
  using assms(2)
proof (induction xs arbitrary: a)
  case Nil
  then show ?case by simp
next
  case (Cons x xs)
  let ?f = "\<lambda>size s. if length s > u64 m then u64 (size + (length s - u64 m)) else size"
  have m: "u64 m = m" using assms(1) by (rule u64_id)
  have "a + (length x - m) < 2 ^ 64" using Cons.prems by simp
  then have fits: "u64 (a + (length x - m)) = a + (length x - m)" by (rule u64_id)
  have step: "?f a x = a + (length x - m)"
    unfolding m fits by simp
  have "(a + (length x - m)) + sum_list (map length xs) < 2 ^ 64"
    using Cons.prems by simp
  from Cons.IH [OF this] have "foldl ?f (?f a x) xs
      = a + (length x - m) + sum_list (map (\<lambda>s. length s - m) xs)"
    unfolding step .
  then show ?case by simp
qed

text \<open>
  Claim C5, amended. \<^verbatim>\<open>Size()\<close> is the sum, over the stored sentences, of
  \<open>max(0, len(sentence) - W)\<close>, computed from the current corpus, where \<open>W\<close> is the
  product \<open>2 * window_size\<close> as the code computes it, in 64-bit arithmetic. \<open>W\<close> is
  \<open>2 * window_size\<close> whenever \<open>window_size\<close> is below \<open>2 ^ 63\<close>. The hypothesis says that the
  number of stored indices fits in 64 bits, which holds of every corpus in a 64-bit
  address space.
\<close>

theorem Size_sum:
  assumes "sum_list (map length (data st)) < 2 ^ 64"
  shows "int (Size st)
           = (\<Sum>s\<leftarrow>data st. max 0 (int (length s) - int (u64 (2 * window_size st))))
       \<and> (window_size st < 2 ^ 63 \<longrightarrow> u64 (2 * window_size st) = 2 * window_size st)"
proof -
  let ?m = "u64 (2 * window_size st)"
  have "Size st = sum_list (map (\<lambda>s. length s - ?m) (data st))"
    unfolding Size_def
    using Size_foldl [OF u64_less, of 0 "data st" "2 * window_size st", unfolded u64_idem] assms
    by simp
  moreover have "int (sum_list (map (\<lambda>s. length s - m) xs))
      = (\<Sum>s\<leftarrow>xs. max 0 (int (length s) - int m))" for m and xs :: "nat list list"
    by (induction xs) auto
  ultimately have "int (Size st)
           = (\<Sum>s\<leftarrow>data st. max 0 (int (length s) - int ?m))"
    by simp
  moreover have "u64 (2 * window_size st) = 2 * window_size st" if "window_size st < 2 ^ 63"
    using that by (intro u64_id) simp
  ultimately show ?thesis by blast
qed

theorem Size_sum_witness: "int (Size stale_example) = 3"
  using Size_sum [of stale_example] by (simp add: stale_example_def u64_def)

text \<open>
  Counterexample to claim C5 as stated: with window size \<open>2 ^ 63\<close> the loader stores the
  one-word sentence \<open>a\<close>, and \<^verbatim>\<open>Size()\<close> is 1, while \<open>max(0, 1 - 2 * window_size)\<close> is 0.
\<close>

theorem Size_sum_counterexample:
  "Size huge_window_example = 1
   \<and> data huge_window_example = [[0]]
   \<and> max 0 (int (length [0 :: nat]) - 2 * int (window_size huge_window_example)) = 0"
  unfolding huge_window_example_eq by (simp add: Size_def u64_def)

subsection \<open>\<^verbatim>\<open>AddData\<close>\<close>

lemma map_insert_key: "k \<in> fst ` set (map_insert k v m)"
  by (induction m) force+

lemma map_of_map_insert_Some: "\<exists>e. map_of (map_insert k v m) k = Some e"
  using map_insert_key [of k v m] by (metis domD dom_map_of_conv_image_fst)

lemma StringsToIndexes_step_length:
  "length (fst (StringsToIndexes_step (indexes, V) s)) = Suc (length indexes)"
  using map_of_map_insert_Some [of s "(length V, 0)" V]
  by (auto simp: StringsToIndexes_step_def Let_def split: option.splits prod.splits)

lemma StringsToIndexes_foldl_length:
  "length (fst (foldl StringsToIndexes_step acc strings)) = length (fst acc) + length strings"
proof (induction strings arbitrary: acc)
  case Nil
  then show ?case by simp
next
  case (Cons s strings)
  obtain indexes V where acc: "acc = (indexes, V)" by (cases acc)
  show ?case
    using Cons.IH [of "StringsToIndexes_step acc s"]
    by (simp add: acc StringsToIndexes_step_length)
qed

lemma StringsToIndexes_short:
  "length strings < u64 (2 * window_size st + 1) \<Longrightarrow> StringsToIndexes strings st = ([], st)"
  by (simp add: StringsToIndexes_def)

lemma StringsToIndexes_long:
  assumes "u64 (2 * window_size st + 1) \<le> length strings"
  shows "length (fst (StringsToIndexes strings st)) = length strings"
    and "window_size (snd (StringsToIndexes strings st)) = window_size st"
    and "data (snd (StringsToIndexes strings st)) = data st"
    and "currentSentence (snd (StringsToIndexes strings st)) = currentSentence st"
    and "currentWord (snd (StringsToIndexes strings st)) = currentWord st"
  using assms StringsToIndexes_foldl_length [of "([], vocab st)" strings]
  by (auto simp: StringsToIndexes_def split: prod.splits)

lemma AddData_short:
  assumes "length (PreprocessString s) < u64 (2 * window_size st + 1)"
  shows "AddData s st = (False, st)"
proof -
  have "StringsToIndexes (PreprocessString s) st = ([], st)"
    using assms by (rule StringsToIndexes_short)
  moreover have "\<not> u64 (2 * window_size st + 1) \<le> length ([] :: nat list)"
    using assms by simp
  ultimately show ?thesis
    unfolding AddData_def by (simp del: One_nat_def add_Suc_right)
qed

lemma AddData_long:
  assumes "u64 (2 * window_size st + 1) \<le> length (PreprocessString s)"
  shows "AddData s st =
    (True, (snd (StringsToIndexes (PreprocessString s) st))
       \<lparr>data := data st @ [fst (StringsToIndexes (PreprocessString s) st)]\<rparr>)"
proof -
  obtain indexes st' where eq: "StringsToIndexes (PreprocessString s) st = (indexes, st')"
    by (cases "StringsToIndexes (PreprocessString s) st")
  have "length indexes = length (PreprocessString s)" "window_size st' = window_size st"
    "data st' = data st"
    using StringsToIndexes_long(1,2,3) [OF assms] by (simp_all add: eq)
  then have "u64 (2 * window_size st' + 1) \<le> length indexes"
    using assms by simp
  then show ?thesis
    unfolding AddData_def eq using \<open>data st' = data st\<close>
    by (simp del: One_nat_def add_Suc_right)
qed

lemma AddData_frame:
  "window_size (snd (AddData s st)) = window_size st"
  "currentSentence (snd (AddData s st)) = currentSentence st"
  "currentWord (snd (AddData s st)) = currentWord st"
proof -
  show "window_size (snd (AddData s st)) = window_size st"
    using AddData_short [of s st] AddData_long [of st s] StringsToIndexes_long(2) [of st "PreprocessString s"]
    by (cases "u64 (2 * window_size st + 1) \<le> length (PreprocessString s)") (simp_all del: One_nat_def add_Suc_right)
  show "currentSentence (snd (AddData s st)) = currentSentence st"
    using AddData_short [of s st] AddData_long [of st s] StringsToIndexes_long(4) [of st "PreprocessString s"]
    by (cases "u64 (2 * window_size st + 1) \<le> length (PreprocessString s)") (simp_all del: One_nat_def add_Suc_right)
  show "currentWord (snd (AddData s st)) = currentWord st"
    using AddData_short [of s st] AddData_long [of st s] StringsToIndexes_long(5) [of st "PreprocessString s"]
    by (cases "u64 (2 * window_size st + 1) \<le> length (PreprocessString s)") (simp_all del: One_nat_def add_Suc_right)
qed

lemma ingest_frame:
  "window_size (ingest st strs) = window_size st"
  "currentSentence (ingest st strs) = currentSentence st"
  "currentWord (ingest st strs) = currentWord st"
  by (induction strs arbitrary: st) (simp_all add: ingest_def AddData_frame)

text \<open>
  Claim C4, amended. \<^verbatim>\<open>AddData(s)\<close> returns false exactly when tokenizing \<open>s\<close> yields
  fewer tokens than \<open>2 * window_size + 1\<close> as the code computes it, in 64-bit arithmetic,
  and then the loader (corpus, vocabulary and cursor) is unchanged. The bound is
  \<open>2 * window_size + 1\<close> whenever \<open>window_size\<close> is below \<open>2 ^ 63\<close>.
\<close>

theorem AddData_false_iff:
  "(\<not> fst (AddData s st) \<longleftrightarrow> length (PreprocessString s) < u64 (2 * window_size st + 1))
   \<and> (\<not> fst (AddData s st) \<longrightarrow> snd (AddData s st) = st)
   \<and> (window_size st < 2 ^ 63 \<longrightarrow> u64 (2 * window_size st + 1) = 2 * window_size st + 1)"
proof -
  have w: "u64 (2 * window_size st + 1) = 2 * window_size st + 1" if "window_size st < 2 ^ 63"
    using that by (intro u64_id) simp
  show ?thesis
  proof (cases "length (PreprocessString s) < u64 (2 * window_size st + 1)")
    case True
    then have "AddData s st = (False, st)" by (rule AddData_short)
    with True w show ?thesis by simp
  next
    case False
    then have "u64 (2 * window_size st + 1) \<le> length (PreprocessString s)"
      by (simp only: not_less)
    from AddData_long [OF this] False w show ?thesis by simp
  qed
qed

theorem AddData_false_iff_witness:
  "\<not> fst (AddData ''a b'' (new_CBOWLoader 2))
   \<and> snd (AddData ''a b'' (new_CBOWLoader 2)) = new_CBOWLoader 2"
  using AddData_false_iff [of "''a b''" "new_CBOWLoader 2"]
  by (simp add: new_CBOWLoader_def tokenize_defs u64_def)

text \<open>
  Counterexample to claim C4 as stated: with window size \<open>2 ^ 63\<close>, \<^verbatim>\<open>AddData("a")\<close> returns
  true although one token is fewer than \<open>2 * window_size + 1\<close>.
\<close>

theorem AddData_false_iff_counterexample:
  "fst (AddData ''a'' (new_CBOWLoader 9223372036854775808))
   \<and> length (PreprocessString ''a'') < 2 * window_size (new_CBOWLoader 9223372036854775808) + 1"
  by (simp add: ingest_defs)

subsection \<open>\<^verbatim>\<open>GetNext\<close>\<close>

lemma GetNext_loop_result:
  assumes room: "cw + 2 * w < length s" and len: "length s \<le> 2 ^ 64"
    and "set is \<subseteq> {0..<w}" and "length t = 2 * w"
  shows "\<exists>t'. GetNext_loop T s cw w is t = Inr t' \<and> length t' = 2 * w \<and>
           (\<forall>j<2 * w. t' ! j =
              (if j \<in> set is then T (s ! (cw + j))
               else if w \<le> j \<and> j - w \<in> set is then T (s ! (cw + j + 1))
               else t ! j))"
  using assms(3,4)
proof (induction "is" arbitrary: t)
  case Nil
  then show ?case by simp
next
  case (Cons i "is")
  have i: "i < w" using Cons.prems(1) by simp
  have a: "u64 (cw + i) = cw + i" using room len i by (intro u64_id) arith
  have b: "u64 (cw + w + i + 1) = cw + w + i + 1" using room len i by (intro u64_id) arith
  have c: "u64 (i + w) = i + w" using room len i by (intro u64_id) arith
  let ?t1 = "t[i := T (s ! (cw + i)), i + w := T (s ! (cw + w + i + 1))]"
  have bounds: "cw + i < length s" "cw + w + i + 1 < length s" "i < length t" "i + w < length t"
    using room i Cons.prems(2) by simp_all
  have step: "GetNext_loop T s cw w (i # is) t = GetNext_loop T s cw w is ?t1"
    using bounds by (simp only: GetNext_loop.simps a b c) simp
  have "set is \<subseteq> {0..<w}" "length ?t1 = 2 * w"
    using Cons.prems by simp_all
  from Cons.IH [OF this] obtain t' where t':
    "GetNext_loop T s cw w is ?t1 = Inr t'" "length t' = 2 * w"
    "\<forall>j<2 * w. t' ! j =
              (if j \<in> set is then T (s ! (cw + j))
               else if w \<le> j \<and> j - w \<in> set is then T (s ! (cw + j + 1))
               else ?t1 ! j)"
    by blast
  have "t' ! j =
              (if j \<in> set (i # is) then T (s ! (cw + j))
               else if w \<le> j \<and> j - w \<in> set (i # is) then T (s ! (cw + j + 1))
               else t ! j)" if j: "j < 2 * w" for j
  proof -
    have is_lt: "\<And>k. k \<in> set is \<Longrightarrow> k < w" using Cons.prems(1) by auto
    consider "j = i" | "j = i + w" | "j \<noteq> i" "j \<noteq> i + w" by blast
    then show ?thesis
    proof cases
      case 1
      then show ?thesis using t'(3) j i bounds
        by (auto simp: nth_list_update)
    next
      case 2
      then have "j \<notin> set is" "j \<noteq> i" using is_lt i by auto
      moreover have "cw + j + 1 = cw + w + i + 1" using 2 by simp
      ultimately show ?thesis using t'(3) j i bounds 2
        by (auto simp: nth_list_update ac_simps)
    next
      case 3
      then have "j - w \<noteq> i \<or> \<not> w \<le> j" by auto
      then show ?thesis using t'(3) j 3 bounds
        by (auto simp: nth_list_update)
    qed
  qed
  then show ?case using t'(1,2) step by auto
qed

lemma GetNext_loop_window:
  assumes room: "cw + 2 * w < length s" and len: "length s \<le> 2 ^ 64"
  shows "GetNext_loop T s cw w [0..<w] (replicate (2 * w) t0)
         = Inr (fst (window T w s cw))"
proof -
  from GetNext_loop_result [OF room len, of "[0..<w]" "replicate (2 * w) t0" T]
  obtain t' where t': "GetNext_loop T s cw w [0..<w] (replicate (2 * w) t0) = Inr t'"
    "length t' = 2 * w"
    "\<forall>j<2 * w. t' ! j =
              (if j \<in> set [0..<w] then T (s ! (cw + j))
               else if w \<le> j \<and> j - w \<in> set [0..<w] then T (s ! (cw + j + 1))
               else replicate (2 * w) t0 ! j)"
    by auto
  have "t' = fst (window T w s cw)"
  proof (rule nth_equalityI)
    show "length t' = length (fst (window T w s cw))"
      using t'(2) room by (simp add: window_def)
  next
    fix j assume "j < length t'"
    then have j: "j < 2 * w" using t'(2) by simp
    show "t' ! j = fst (window T w s cw) ! j"
    proof (cases "j < w")
      case True
      then show ?thesis using t'(3) j room
        by (simp add: window_def nth_append)
    next
      case False
      then have "t' ! j = T (s ! (cw + j + 1))" using t'(3) j by auto
      moreover have "fst (window T w s cw) ! j
          = map T (take w (drop (cw + w + 1) s)) ! (j - w)"
        using False room by (simp add: window_def nth_append min_absorb2)
      moreover have "j - w < w" "cw + w + 1 + (j - w) < length s" "cw + w + 1 + (j - w) = cw + j + 1"
        using False j room by arith+
      ultimately show ?thesis by (simp del: One_nat_def add_Suc_right)
    qed
  qed
  then show ?thesis using t'(1) by simp
qed

lemma GetNext_window:
  assumes cs: "currentSentence st < length (data st)"
    and room: "currentWord st + 2 * window_size st < length (data st ! currentSentence st)"
    and len: "length (data st ! currentSentence st) < 2 ^ 64"
  shows "GetNext T t0 st =
     Inr (window T (window_size st) (data st ! currentSentence st) (currentWord st),
          if currentWord st + 2 * window_size st + 1 < length (data st ! currentSentence st)
          then st\<lparr>currentWord := currentWord st + 1\<rparr>
          else st\<lparr>currentWord := 0, currentSentence := currentSentence st + 1\<rparr>)"
proof -
  let ?w = "window_size st" and ?cw = "currentWord st" and ?s = "data st ! currentSentence st"
  have a: "u64 (?cw + ?w) = ?cw + ?w" using room len by (intro u64_id) arith
  have b: "u64 (?w * 2) = 2 * ?w" using room len by (subst u64_id) arith+
  have c: "u64 (2 * ?w) = 2 * ?w" using room len by (intro u64_id) arith
  have d: "u64 (?cw + 1) = ?cw + 1" using room len by (intro u64_id) arith
  have e: "u64_sub (length ?s) (2 * ?w) = length ?s - 2 * ?w"
    using room len by (intro u64_sub_eq) arith+
  have lab: "?cw + ?w < length ?s" using room by arith
  have loop: "GetNext_loop T ?s ?cw ?w [0..<?w] (replicate (2 * ?w) t0)
         = Inr (fst (window T ?w ?s ?cw))"
    using room len by (intro GetNext_loop_window) simp_all
  have snd_w: "snd (window T ?w ?s ?cw) = ?s ! (?cw + ?w)" by (simp add: window_def)
  have cond: "(length ?s - 2 * ?w \<le> ?cw + 1) = (\<not> ?cw + 2 * ?w + 1 < length ?s)"
    using room by arith
  show ?thesis
    unfolding GetNext_def Let_def a b c d e loop
    using cs lab cond snd_w
    by (simp del: One_nat_def add_Suc_right) (metis prod.collapse)
qed

lemma IsDone_active:
  assumes cs: "currentSentence st < length (data st)"
    and room: "currentWord st + 2 * window_size st < length (data st ! currentSentence st)"
    and len: "length (data st ! currentSentence st) < 2 ^ 64"
  shows "\<not> IsDone st"
proof -
  let ?w = "window_size st" and ?s = "data st ! currentSentence st"
  have a: "u64 (2 * ?w + 1) = 2 * ?w + 1" using room len by (intro u64_id) arith
  have b: "u64_sub (length ?s) (2 * ?w + 1) = length ?s - (2 * ?w + 1)"
    using room len by (intro u64_sub_eq) arith+
  have "\<not> currentWord st > length ?s - (2 * ?w + 1)" using room by arith
  moreover have "data st \<noteq> []" using cs by auto
  ultimately show ?thesis
    unfolding IsDone_def a b using cs by (simp del: One_nat_def add_Suc_right)
qed

text \<open>
  Claim C3, amended. \<^verbatim>\<open>IsDone\<close> checks the word index in the last sentence only, so a
  cursor that is not done may still leave no room for a window (see the counterexample
  below). When the cursor is inside the corpus and a full window fits at it
  (\<open>currentWord_ + 2 * window_size\<close> is below the length of the current sentence),
  \<^verbatim>\<open>GetNext\<close> returns the pair whose context is the \<open>window_size\<close> indices before position
  \<open>currentWord_ + window_size\<close> followed by the \<open>window_size\<close> indices after it, and whose
  label is the index at that position. The context holds the indices converted to the
  element type by \<open>T\<close>.
\<close>

theorem GetNext_returns_window:
  assumes "currentSentence st < length (data st)"
    and "currentWord st + 2 * window_size st < length (data st ! currentSentence st)"
    and "length (data st ! currentSentence st) < 2 ^ 64"
    and "w = window_size st" and "s = data st ! currentSentence st" and "c = currentWord st"
  shows "\<exists>st'. GetNext T t0 st
           = Inr ((map T (take w (drop c s)) @ map T (take w (drop (c + w + 1) s)), s ! (c + w)),
                  st')"
  using GetNext_window [OF assms(1,2,3), of T t0] assms(4,5,6)
  by (simp add: window_def)

theorem GetNext_returns_window_witness:
  "\<exists>st'. GetNext id (0 :: nat) (stale_example\<lparr>currentWord := 1\<rparr>) = Inr (([1, 1], 0), st')"
  using GetNext_returns_window [of "stale_example\<lparr>currentWord := 1\<rparr>" 1 "[0, 1, 0, 1]" 1 id 0]
  by (simp add: stale_example_def)

text \<open>
  Counterexample to claim C3 as stated. With window size 1, ingest \<open>a b a b c\<close> and
  \<open>a b a\<close>, call \<^verbatim>\<open>GetNext\<close> twice (the cursor is then at word 2 of sentence 0) and
  \<^verbatim>\<open>RemoveInfrequent(2)\<close>, which drops \<open>c\<close> and keeps the cursor. Sentence 0 now has four
  words and is not the last one, so \<^verbatim>\<open>IsDone()\<close> is false; \<^verbatim>\<open>GetNext\<close> reads position 4 of
  it.
\<close>

theorem GetNext_active_counterexample:
  "GetNext_times id (0 :: nat) 2 stale_source
     = Inr ([([0, 0], 1), ([1, 1], 0)], stale_source\<lparr>currentWord := 2\<rparr>)
   \<and> RemoveInfrequent 2 (stale_source\<lparr>currentWord := 2\<rparr>) = stale_example
   \<and> \<not> IsDone stale_example
   \<and> GetNext id (0 :: nat) stale_example = Inl OutOfBounds"
proof -
  have "GetNext_times id (0 :: nat) 2 stale_source
     = Inr ([([0, 0], 1), ([1, 1], 0)], stale_source\<lparr>currentWord := 2\<rparr>)"
    unfolding stale_source_eq by (simp add: cursor_defs)
  moreover have "RemoveInfrequent 2 (stale_source\<lparr>currentWord := 2\<rparr>) = stale_example"
    unfolding stale_source_eq
    by (simp add: RemoveInfrequent_def reverse_vocab_def rebuild_sentence_def Let_def ingest_defs
        stale_example_def)
  moreover have "\<not> IsDone stale_example"
    by (simp add: IsDone_def stale_example_def)
  moreover have "GetNext id (0 :: nat) stale_example = Inl OutOfBounds"
    by (simp add: cursor_defs stale_example_def)
  ultimately show ?thesis by simp
qed

subsection \<open>The vocabulary during ingestion\<close>

lemma map_insert_present:
  "sorted_wrt (<) (map fst m) \<Longrightarrow> k \<in> fst ` set m \<Longrightarrow> map_insert k v m = m"
proof (induction m)
  case Nil
  then show ?case by simp
next
  case (Cons e m)
  obtain k' v' where e: "e = (k', v')" by (cases e)
  show ?case
  proof (cases "k = k'")
    case True
    then show ?thesis by (simp add: e)
  next
    case False
    then have in_m: "k \<in> fst ` set m" using Cons.prems(2) e by auto
    then have "k' < k" using Cons.prems(1) e by auto
    then have "\<not> k < k'" by simp
    then show ?thesis using False Cons.IH in_m Cons.prems(1) by (simp add: e)
  qed
qed

lemma map_insert_absent:
  "sorted_wrt (<) (map fst m) \<Longrightarrow> k \<notin> fst ` set m \<Longrightarrow>
   set (map_insert k v m) = insert (k, v) (set m)
   \<and> sorted_wrt (<) (map fst (map_insert k v m))
   \<and> fst ` set (map_insert k v m) = insert k (fst ` set m)"
proof (induction m)
  case Nil
  then show ?case by simp
next
  case (Cons e m)
  obtain k' v' where e: "e = (k', v')" by (cases e)
  have ne: "k \<noteq> k'" using Cons.prems(2) e by auto
  show ?case
  proof (cases "k < k'")
    case True
    then have "\<forall>x\<in>set m. k < fst x" using Cons.prems(1) e by (auto intro: less_trans)
    then show ?thesis using True ne Cons.prems(1) by (auto simp: e)
  next
    case False
    then have lt: "k' < k" using ne by simp
    have "k \<notin> fst ` set m" using Cons.prems(2) by auto
    from Cons.IH [OF _ this] Cons.prems(1)
    have ih: "set (map_insert k v m) = insert (k, v) (set m)"
      "sorted_wrt (<) (map fst (map_insert k v m))"
      "fst ` set (map_insert k v m) = insert k (fst ` set m)"
      by simp_all
    have "\<forall>x\<in>set (map_insert k v m). k' < fst x"
      using ih(1) lt Cons.prems(1) e by auto
    then show ?thesis using False ne ih by (auto simp: e)
  qed
qed

lemma sorted_keys_distinct: "sorted_wrt (<) (map fst (m :: (string \<times> 'v) list)) \<Longrightarrow> distinct (map fst m)"
  using strict_sorted_iff by blast

lemma freq_incr_keys: "map fst (freq_incr s V) = map fst V"
  by (induction V) (auto simp: freq_incr_def)

lemma freq_incr_set:
  "set (freq_incr s V) = (\<lambda>(k, i, f). if k = s then (k, i, u64 (f + 1)) else (k, i, f)) ` set V"
  by (simp add: freq_incr_def)

lemma first_seen_append: "k \<in> set h \<Longrightarrow> first_seen (h @ h') k = first_seen h k"
  by (simp add: first_seen_def)

lemma first_seen_new:
  assumes "k \<notin> set h"
  shows "first_seen (h @ k # h') k = card (set h)"
proof -
  have "\<And>x. x \<in> set h \<Longrightarrow> x \<noteq> k" using assms by auto
  then have "takeWhile (\<lambda>x. x \<noteq> k) (h @ k # h') = h @ takeWhile (\<lambda>x. x \<noteq> k) (k # h')"
    by (rule takeWhile_append2)
  then show ?thesis by (simp add: first_seen_def)
qed

lemma first_seen_image:
  "first_seen h ` set h = {0..<card (set h)} \<and> inj_on (first_seen h) (set h)"
proof (induction h rule: rev_induct)
  case Nil
  then show ?case by simp
next
  case (snoc x h)
  have same: "\<And>k. k \<in> set h \<Longrightarrow> first_seen (h @ [x]) k = first_seen h k"
    by (rule first_seen_append)
  show ?case
  proof (cases "x \<in> set h")
    case True
    then have "set (h @ [x]) = set h" by auto
    moreover have "first_seen (h @ [x]) ` set h = first_seen h ` set h"
      using same by (intro image_cong) auto
    moreover have "inj_on (first_seen (h @ [x])) (set h) = inj_on (first_seen h) (set h)"
      using same by (intro inj_on_cong) auto
    ultimately show ?thesis using snoc.IH by simp
  next
    case False
    have new: "first_seen (h @ [x]) x = card (set h)"
      using False by (rule first_seen_new)
    have img: "first_seen (h @ [x]) ` set h = {0..<card (set h)}"
      using same snoc.IH by (metis (no_types, lifting) image_cong)
    have inj: "inj_on (first_seen (h @ [x])) (set h)"
      using same snoc.IH by (metis (no_types, lifting) inj_on_cong)
    have card: "card (set (h @ [x])) = Suc (card (set h))" using False by simp
    have "first_seen (h @ [x]) ` set (h @ [x]) = insert (card (set h)) {0..<card (set h)}"
      using new img by simp
    also have "\<dots> = {0..<card (set (h @ [x]))}"
      unfolding card by (simp add: atLeast0_lessThan_Suc)
    finally have 1: "first_seen (h @ [x]) ` set (h @ [x]) = {0..<card (set (h @ [x]))}" .
    have "first_seen (h @ [x]) x \<notin> first_seen (h @ [x]) ` (set h - {x})"
      using new img False by simp
    then have "inj_on (first_seen (h @ [x])) (insert x (set h))"
      using inj by (simp add: inj_on_insert)
    then show ?thesis using 1 by simp
  qed
qed

lemma first_seen_less: "k \<in> set h \<Longrightarrow> first_seen h k < card (set h)"
  using first_seen_image [of h] by (metis atLeastLessThan_iff imageI)

lemma vocab_of_length:
  assumes "vocab_of h V"
  shows "length V = card (set h)"
proof -
  have d: "distinct (map fst V)" using assms by (simp add: vocab_of_def sorted_keys_distinct)
  have "fst ` set V = set h" using assms by (force simp: vocab_of_def)
  then have "card (set h) = card (set (map fst V))" by simp
  also have "\<dots> = length (map fst V)" using d by (rule distinct_card)
  finally show ?thesis by simp
qed

lemma vocab_of_keys: "vocab_of h V \<Longrightarrow> fst ` set V = set h"
  by (force simp: vocab_of_def)

lemma vocab_of_lookup:
  assumes "vocab_of h V" "k \<in> set h"
  shows "map_of V k = Some (first_seen h k, u64 (count_list h k))"
proof -
  have "distinct (map fst V)" using assms(1) by (simp add: vocab_of_def sorted_keys_distinct)
  moreover have "(k, first_seen h k, u64 (count_list h k)) \<in> set V"
    using assms by (simp add: vocab_of_def)
  ultimately show ?thesis by (rule map_of_is_SomeI)
qed

lemma vocab_of_indices:
  assumes "vocab_of h V"
  shows "(\<lambda>(k, i, f). i) ` set V = {0..<length V}"
    and "distinct (map (\<lambda>(k, i, f). i) V)"
proof -
  have setV: "set V = (\<lambda>k. (k, first_seen h k, u64 (count_list h k))) ` set h"
    using assms by (simp add: vocab_of_def)
  have len: "length V = card (set h)" using assms by (rule vocab_of_length)
  have "(\<lambda>(k, i, f). i) ` set V = first_seen h ` set h"
    unfolding setV by (simp add: image_image)
  then show "(\<lambda>(k, i, f). i) ` set V = {0..<length V}"
    using first_seen_image [of h] len by simp
  have d: "distinct (map fst V)" using assms by (simp add: vocab_of_def sorted_keys_distinct)
  have eq: "map (\<lambda>(k, i, f). i) V = map (first_seen h) (map fst V)"
    using setV by (auto simp: comp_def)
  have "inj_on (first_seen h) (set (map fst V))"
    using first_seen_image [of h] vocab_of_keys [OF assms] by simp
  then have "distinct (map (first_seen h) (map fst V))"
    using d by (simp only: distinct_map)
  then show "distinct (map (\<lambda>(k, i, f). i) V)"
    by (simp only: eq)
qed

lemma StringsToIndexes_step_vocab:
  assumes V: "vocab_of h V"
  shows "\<exists>V'. StringsToIndexes_step (indexes, V) s = (indexes @ [first_seen (h @ [s]) s], V')
            \<and> vocab_of (h @ [s]) V'"
proof (cases "s \<in> set h")
  case True
  have sorted: "sorted_wrt (<) (map fst V)" using V by (simp add: vocab_of_def)
  have "s \<in> fst ` set V" using True vocab_of_keys [OF V] by simp
  then have ins: "map_insert s (length V, 0) V = V"
    using sorted by (intro map_insert_present)
  have look: "map_of V s = Some (first_seen h s, u64 (count_list h s))"
    using V True by (rule vocab_of_lookup)
  have step: "StringsToIndexes_step (indexes, V) s = (indexes @ [first_seen h s], freq_incr s V)"
    by (simp add: StringsToIndexes_step_def ins look)
  have "set (freq_incr s V) = (\<lambda>k. (k, first_seen (h @ [s]) k, u64 (count_list (h @ [s]) k))) ` set (h @ [s])"
  proof -
    have "set (freq_incr s V)
        = (\<lambda>k. if k = s then (k, first_seen h k, u64 (u64 (count_list h k) + 1))
                else (k, first_seen h k, u64 (count_list h k))) ` set h"
      using V by (auto simp: freq_incr_set vocab_of_def image_image intro!: image_cong)
    also have "\<dots> = (\<lambda>k. (k, first_seen (h @ [s]) k, u64 (count_list (h @ [s]) k))) ` set h"
      by (intro image_cong) (simp_all add: first_seen_append u64_Suc)
    also have "set h = set (h @ [s])" using True by auto
    finally show ?thesis .
  qed
  then have "vocab_of (h @ [s]) (freq_incr s V)"
    using sorted by (simp only: vocab_of_def freq_incr_keys)
  then show ?thesis using step True by (simp add: first_seen_append)
next
  case False
  have sorted: "sorted_wrt (<) (map fst V)" using V by (simp add: vocab_of_def)
  have absent: "s \<notin> fst ` set V" using False vocab_of_keys [OF V] by simp
  let ?V1 = "map_insert s (length V, 0) V"
  note ins = map_insert_absent [OF sorted absent, of "(length V, 0)"]
  have len: "length V = card (set h)" using V by (rule vocab_of_length)
  have new: "first_seen (h @ [s]) s = card (set h)" using False by (rule first_seen_new)
  have "distinct (map fst ?V1)" using ins by (simp add: sorted_keys_distinct)
  moreover have "(s, length V, 0) \<in> set ?V1" using ins by simp
  ultimately have look: "map_of ?V1 s = Some (length V, 0)" by (rule map_of_is_SomeI)
  have step: "StringsToIndexes_step (indexes, V) s = (indexes @ [length V], freq_incr s ?V1)"
    by (simp add: StringsToIndexes_step_def look)
  have "set (freq_incr s ?V1) = (\<lambda>k. (k, first_seen (h @ [s]) k, u64 (count_list (h @ [s]) k))) ` set (h @ [s])"
  proof -
    have old: "(\<lambda>(k, i, f). if k = s then (k, i, u64 (f + 1)) else (k, i, f)) ` set V
        = (\<lambda>k. (k, first_seen (h @ [s]) k, u64 (count_list (h @ [s]) k))) ` set h"
    proof -
      have "(\<lambda>(k, i, f). if k = s then (k, i, u64 (f + 1)) else (k, i, f)) ` set V
          = (\<lambda>k. (k, first_seen h k, u64 (count_list h k))) ` set h"
        using V False by (auto simp: vocab_of_def image_image intro!: image_cong)
      also have "\<dots> = (\<lambda>k. (k, first_seen (h @ [s]) k, u64 (count_list (h @ [s]) k))) ` set h"
        using False by (intro image_cong) (auto simp: first_seen_append)
      finally show ?thesis .
    qed
    have "count_list h s = 0" using False by (simp add: count_list_0_iff)
    then have "(s, length V, u64 (0 + 1)) = (s, first_seen (h @ [s]) s, u64 (count_list (h @ [s]) s))"
      using new len by simp
    then show ?thesis
      using ins old by (simp add: freq_incr_set)
  qed
  then have "vocab_of (h @ [s]) (freq_incr s ?V1)"
    using ins by (simp only: vocab_of_def freq_incr_keys)
  then show ?thesis using step new len by simp
qed

lemma StringsToIndexes_foldl_vocab:
  assumes "vocab_of h V"
  shows "\<exists>V'. foldl StringsToIndexes_step (indexes, V) strings
               = (indexes @ map (first_seen (h @ strings)) strings, V')
            \<and> vocab_of (h @ strings) V'"
  using assms
proof (induction strings arbitrary: indexes h V)
  case Nil
  then show ?case by simp
next
  case (Cons s strings)
  from StringsToIndexes_step_vocab [OF Cons.prems, of indexes s]
  obtain V1 where V1: "StringsToIndexes_step (indexes, V) s = (indexes @ [first_seen (h @ [s]) s], V1)"
    "vocab_of (h @ [s]) V1" by blast
  from Cons.IH [OF V1(2), of "indexes @ [first_seen (h @ [s]) s]"]
  obtain V' where V': "foldl StringsToIndexes_step (indexes @ [first_seen (h @ [s]) s], V1) strings
               = ((indexes @ [first_seen (h @ [s]) s]) @ map (first_seen ((h @ [s]) @ strings)) strings, V')"
    "vocab_of ((h @ [s]) @ strings) V'" by blast
  have "first_seen ((h @ [s]) @ strings) s = first_seen (h @ [s]) s"
    by (rule first_seen_append) simp
  then show ?case using V1(1) V' by simp
qed

lemma AddData_vocab:
  assumes V: "vocab_of h (vocab st)"
    and long: "u64 (2 * window_size st + 1) \<le> length (PreprocessString s)"
  shows "\<exists>V'. snd (AddData s st)
             = st\<lparr>vocab := V',
                    data := data st @ [map (first_seen (h @ PreprocessString s)) (PreprocessString s)]\<rparr>
           \<and> vocab_of (h @ PreprocessString s) V'"
proof -
  let ?toks = "PreprocessString s"
  from StringsToIndexes_foldl_vocab [OF V, of "[]" ?toks]
  obtain V' where V': "foldl StringsToIndexes_step ([], vocab st) ?toks
               = (map (first_seen (h @ ?toks)) ?toks, V')" "vocab_of (h @ ?toks) V'"
    by auto
  have sti: "StringsToIndexes ?toks st = (map (first_seen (h @ ?toks)) ?toks, st\<lparr>vocab := V'\<rparr>)"
    using long V'(1) by (simp add: StringsToIndexes_def del: One_nat_def add_Suc_right)
  have "snd (AddData s st) = st\<lparr>vocab := V', data := data st @ [map (first_seen (h @ ?toks)) ?toks]\<rparr>"
    using AddData_long [OF long] sti by simp
  then show ?thesis using V'(2) by blast
qed

lemma ingested_new: "ingested [] (new_CBOWLoader w)"
  by (simp add: ingested_def new_CBOWLoader_def vocab_of_def)

lemma AddData_ingested:
  assumes "ingested acc st"
  shows "ingested (if u64 (2 * window_size st + 1) \<le> length (PreprocessString s)
                   then acc @ [PreprocessString s] else acc) (snd (AddData s st))"
proof (cases "u64 (2 * window_size st + 1) \<le> length (PreprocessString s)")
  case False
  then have "AddData s st = (False, st)" by (intro AddData_short) simp
  then show ?thesis using False assms by simp
next
  case True
  let ?toks = "PreprocessString s" and ?h = "concat acc"
  have V: "vocab_of ?h (vocab st)" using assms by (simp add: ingested_def)
  from StringsToIndexes_foldl_vocab [OF V, of "[]" ?toks]
  obtain V' where V': "foldl StringsToIndexes_step ([], vocab st) ?toks
               = (map (first_seen (?h @ ?toks)) ?toks, V')" "vocab_of (?h @ ?toks) V'"
    by auto
  have sti: "StringsToIndexes ?toks st = (map (first_seen (?h @ ?toks)) ?toks, st\<lparr>vocab := V'\<rparr>)"
    using True V'(1) by (simp add: StringsToIndexes_def del: One_nat_def add_Suc_right)
  have add: "snd (AddData s st) = st\<lparr>vocab := V', data := data st @ [map (first_seen (?h @ ?toks)) ?toks]\<rparr>"
    using AddData_long [OF True] sti by simp
  have "first_seen (?h @ ?toks) k = first_seen ?h k" if "t \<in> set acc" "k \<in> set t" for t k
    using that by (intro first_seen_append) auto
  then have old: "map (map (first_seen (?h @ ?toks))) acc = map (map (first_seen ?h)) acc"
    by simp
  show ?thesis
    using True V'(2) assms old by (simp add: add ingested_def)
qed

lemma ingest_ingested:
  assumes "ingested acc st"
  shows "ingested (acc @ accepted (window_size st) strs) (ingest st strs)"
  using assms
proof (induction strs arbitrary: acc st)
  case Nil
  then show ?case by (simp add: ingest_def accepted_def)
next
  case (Cons s strs)
  let ?st1 = "snd (AddData s st)"
  let ?acc1 = "if u64 (2 * window_size st + 1) \<le> length (PreprocessString s)
                   then acc @ [PreprocessString s] else acc"
  have 1: "ingested ?acc1 ?st1" using Cons.prems by (rule AddData_ingested)
  have w: "window_size ?st1 = window_size st" by (rule AddData_frame)
  have "ingest st (s # strs) = ingest ?st1 strs" by (simp add: ingest_def)
  moreover have "acc @ accepted (window_size st) (s # strs) = ?acc1 @ accepted (window_size st) strs"
    by (simp add: accepted_def del: One_nat_def add_Suc_right)
  ultimately show ?case using Cons.IH [OF 1] w by simp
qed

lemma ingest_new:
  "ingested (accepted w strs) (ingest (new_CBOWLoader w) strs)"
  using ingest_ingested [OF ingested_new, of w strs] by (simp add: new_CBOWLoader_def)

lemma accepted_no_wrap:
  assumes "w < 2 ^ 63"
  shows "accepted w strs = filter (\<lambda>toks. 2 * w + 1 \<le> length toks) (map PreprocessString strs)"
proof -
  have "u64 (2 * w + 1) = 2 * w + 1" using assms by (intro u64_id) simp
  then show ?thesis unfolding accepted_def by (simp only:)
qed



subsection \<open>Enumerating the windows\<close>

lemma GetNext_times_from:
  assumes ok: "stored_ok st"
    and cs: "currentSentence st < length (data st)"
    and room: "currentWord st + 2 * window_size st < length (data st ! currentSentence st)"
    and n: "n = (length (data st ! currentSentence st) - 2 * window_size st - currentWord st)
              + sum_list (map (\<lambda>s. length s - 2 * window_size st)
                              (drop (Suc (currentSentence st)) (data st)))"
  shows "GetNext_times T t0 n st =
     Inr (map (window T (window_size st) (data st ! currentSentence st))
              [currentWord st..<length (data st ! currentSentence st) - 2 * window_size st]
          @ concat (map (windows_of T (window_size st)) (drop (Suc (currentSentence st)) (data st))),
          st\<lparr>currentWord := 0, currentSentence := length (data st)\<rparr>)"
  using assms
proof (induction n arbitrary: st)
  case 0
  then show ?case by simp
next
  case (Suc n)
  let ?w = "window_size st" and ?cs = "currentSentence st" and ?cw = "currentWord st"
  let ?s = "data st ! ?cs"
  have s_in: "?s \<in> set (data st)" using Suc.prems(2) by simp
  then have len: "length ?s < 2 ^ 64" and long: "2 * ?w + 1 \<le> length ?s"
    using Suc.prems(1) by (auto simp: stored_ok_def)
  have active: "\<not> IsDone st"
    using Suc.prems(2,3) len by (rule IsDone_active)
  note gn = GetNext_window [OF Suc.prems(2,3) len, of T t0]
  have upt: "[?cw..<length ?s - 2 * ?w] = ?cw # [Suc ?cw..<length ?s - 2 * ?w]"
    using Suc.prems(3) by (intro upt_conv_Cons) arith
  show ?case
  proof (cases "?cw + 2 * ?w + 1 < length ?s")
    case True
    let ?st' = "st\<lparr>currentWord := ?cw + 1\<rparr>"
    have gn': "GetNext T t0 st = Inr (window T ?w ?s ?cw, ?st')"
      using gn True by simp
    have n': "n = (length (data ?st' ! currentSentence ?st') - 2 * window_size ?st' - currentWord ?st')
              + sum_list (map (\<lambda>s. length s - 2 * window_size ?st')
                              (drop (Suc (currentSentence ?st')) (data ?st')))"
      using Suc.prems(4) True by simp
    have "GetNext_times T t0 n ?st' =
       Inr (map (window T ?w ?s) [Suc ?cw..<length ?s - 2 * ?w]
          @ concat (map (windows_of T ?w) (drop (Suc ?cs) (data st))),
          st\<lparr>currentWord := 0, currentSentence := length (data st)\<rparr>)"
      using Suc.IH [of ?st', OF _ _ _ n'] Suc.prems(1,2) True
      by (simp add: stored_ok_def)
    then show ?thesis
      using active gn' upt by simp
  next
    case False
    let ?st' = "st\<lparr>currentWord := 0, currentSentence := ?cs + 1\<rparr>"
    have gn': "GetNext T t0 st = Inr (window T ?w ?s ?cw, ?st')"
      using gn False by simp
    have last: "length ?s - 2 * ?w = Suc ?cw" using False Suc.prems(3) by arith
    have upt1: "[?cw..<length ?s - 2 * ?w] = [?cw]" using last by simp
    have n_rest: "n = sum_list (map (\<lambda>s. length s - 2 * ?w) (drop (Suc ?cs) (data st)))"
      using Suc.prems(4) last by simp
    show ?thesis
    proof (cases "Suc ?cs < length (data st)")
      case True
      let ?s' = "data st ! Suc ?cs"
      have drop: "drop (Suc ?cs) (data st) = ?s' # drop (Suc (Suc ?cs)) (data st)"
        using True by (simp add: Cons_nth_drop_Suc)
      have "?s' \<in> set (data st)" using True by simp
      then have long': "2 * ?w + 1 \<le> length ?s'"
        using Suc.prems(1) by (auto simp: stored_ok_def)
      have n': "n = (length (data ?st' ! currentSentence ?st') - 2 * window_size ?st' - currentWord ?st')
              + sum_list (map (\<lambda>s. length s - 2 * window_size ?st')
                              (drop (Suc (currentSentence ?st')) (data ?st')))"
        using n_rest drop by simp
      have "GetNext_times T t0 n ?st' =
         Inr (windows_of T ?w ?s'
            @ concat (map (windows_of T ?w) (drop (Suc (Suc ?cs)) (data st))),
            st\<lparr>currentWord := 0, currentSentence := length (data st)\<rparr>)"
        using Suc.IH [of ?st', OF _ _ _ n'] Suc.prems(1) True long'
        by (simp add: stored_ok_def windows_of_def [abs_def])
      then show ?thesis
        using active gn' upt1 drop by (simp add: windows_of_def [abs_def])
    next
      case False
      then have at_end: "Suc ?cs = length (data st)" using Suc.prems(2) by simp
      then have "n = 0" using n_rest by simp
      then show ?thesis
        using active gn' upt1 at_end by simp
    qed
  qed
qed

lemma GetNext_times_all:
  assumes ok: "stored_ok st"
    and w: "window_size st < 2 ^ 63"
    and total: "sum_list (map length (data st)) < 2 ^ 64"
    and start: "currentSentence st = 0" "currentWord st = 0"
  shows "GetNext_times T t0 (Size st) st =
     Inr (concat (map (windows_of T (window_size st)) (data st)),
          st\<lparr>currentSentence := length (data st)\<rparr>)"
proof (cases "data st")
  case Nil
  then have "Size st = 0" by (simp add: Size_def)
  then show ?thesis using Nil start by simp
next
  case (Cons s ss)
  have "2 * window_size st < 2 ^ 64" using w by simp
  from Size_foldl [OF this, of 0 "data st"] total
  have size: "Size st = sum_list (map (\<lambda>s. length s - 2 * window_size st) (data st))"
    by (simp add: Size_def)
  have "2 * window_size st + 1 \<le> length s" using ok Cons by (simp add: stored_ok_def)
  then have room: "currentWord st + 2 * window_size st < length (data st ! currentSentence st)"
    using start Cons by simp
  have cs: "currentSentence st < length (data st)" using start Cons by simp
  have n: "Size st = (length (data st ! currentSentence st) - 2 * window_size st - currentWord st)
              + sum_list (map (\<lambda>s. length s - 2 * window_size st)
                              (drop (Suc (currentSentence st)) (data st)))"
    using size start Cons by simp
  have st: "st\<lparr>currentWord := 0, currentSentence := length (data st)\<rparr>
      = st\<lparr>currentSentence := length (data st)\<rparr>"
    using start by simp
  show ?thesis
    using GetNext_times_from [OF ok cs room n, of T t0] start Cons st
    by (simp add: windows_of_def [abs_def])
qed

lemma ingest_stored:
  assumes w: "w < 2 ^ 63"
    and total: "length (concat (map PreprocessString strs)) < 2 ^ 64"
    and st: "st = ingest (new_CBOWLoader w) strs"
  shows "map length (data st) = filter (\<lambda>n. 2 * w + 1 \<le> n) (map (\<lambda>s. length (PreprocessString s)) strs)"
    and "stored_ok st"
    and "sum_list (map length (data st)) < 2 ^ 64"
    and "window_size st = w" "currentSentence st = 0" "currentWord st = 0"
proof -
  have ing: "ingested (accepted w strs) st" unfolding st by (rule ingest_new)
  have acc: "accepted w strs = filter (\<lambda>toks. 2 * w + 1 \<le> length toks) (map PreprocessString strs)"
    using w by (rule accepted_no_wrap)
  have "map length (data st) = map length (accepted w strs)"
    using ing by (simp add: ingested_def comp_def)
  then show lens: "map length (data st) = filter (\<lambda>n. 2 * w + 1 \<le> n) (map (\<lambda>s. length (PreprocessString s)) strs)"
    by (simp add: acc filter_map comp_def del: One_nat_def add_Suc_right)
  show ws: "window_size st = w" and "currentSentence st = 0" and "currentWord st = 0"
    unfolding st by (simp_all add: ingest_frame new_CBOWLoader_def)
  have "sum_list (map length (data st)) \<le> sum_list (map (\<lambda>s. length (PreprocessString s)) strs)"
    unfolding lens using sum_list_filter_le_nat [of id] by (metis id_apply map_idI)
  also have "\<dots> = length (concat (map PreprocessString strs))"
    by (simp add: length_concat comp_def)
  finally show sum: "sum_list (map length (data st)) < 2 ^ 64" using total by simp
  have "length s < 2 ^ 64" if "s \<in> set (data st)" for s
  proof -
    have "length s \<le> sum_list (map length (data st))"
      using that by (intro member_le_sum_list) auto
    then show ?thesis using sum by simp
  qed
  moreover have "2 * w + 1 \<le> length s" if "s \<in> set (data st)" for s
  proof -
    have "length s \<in> set (map length (data st))" using that by simp
    then show ?thesis unfolding lens by simp
  qed
  ultimately show "stored_ok st" by (simp add: stored_ok_def ws)
qed

text \<open>
  Claim C2, amended. When \<open>window_size\<close> is below \<open>2 ^ 63\<close>, for a freshly constructed
  loader into which the strings \<open>strs\<close> have been ingested, \<^verbatim>\<open>Size()\<close> consecutive calls of
  \<^verbatim>\<open>GetNext\<close>, each made while \<^verbatim>\<open>IsDone()\<close> is false, return the windows of the stored
  sentences in order: sentence after sentence in ingestion order, and within a sentence
  of length \<open>L\<close> the \<open>L - 2 * window_size\<close> center positions from left to right, each once.
  Afterwards \<^verbatim>\<open>IsDone()\<close> holds. The second hypothesis says that the number of tokens fits
  in 64 bits, which holds of every input held in a 64-bit address space.
\<close>

theorem GetNext_enumerates_windows:
  assumes "w < 2 ^ 63"
    and "length (concat (map PreprocessString strs)) < 2 ^ 64"
    and "st = ingest (new_CBOWLoader w) strs"
  shows "GetNext_times T t0 (Size st) st
           = Inr (concat (map (windows_of T w) (data st)),
                  st\<lparr>currentSentence := length (data st)\<rparr>)
       \<and> map length (data st)
           = filter (\<lambda>n. 2 * w + 1 \<le> n) (map (\<lambda>s. length (PreprocessString s)) strs)
       \<and> (\<forall>s \<in> set (data st). length (windows_of T w s) = length s - 2 * w)
       \<and> IsDone (st\<lparr>currentSentence := length (data st)\<rparr>)"
proof -
  note facts = ingest_stored [OF assms]
  have "window_size st < 2 ^ 63" using facts(4) assms(1) by simp
  then have "GetNext_times T t0 (Size st) st
           = Inr (concat (map (windows_of T (window_size st)) (data st)),
                  st\<lparr>currentSentence := length (data st)\<rparr>)"
    using facts(2,3,5,6) by (intro GetNext_times_all)
  moreover have "IsDone (st\<lparr>currentSentence := length (data st)\<rparr>)"
    by (simp add: IsDone_def)
  ultimately show ?thesis using facts(1,4) by (simp add: windows_of_def)
qed

theorem GetNext_enumerates_windows_witness:
  "GetNext_times id 0 3 (ingest (new_CBOWLoader 1) [''a b c d'', ''e f g''])
     = Inr ([([0, 2], 1), ([1, 3], 2), ([4, 6], 5)],
            (ingest (new_CBOWLoader 1) [''a b c d'', ''e f g''])\<lparr>currentSentence := 2\<rparr>)"
proof -
  have st: "ingest (new_CBOWLoader 1) [''a b c d'', ''e f g'']
    = \<lparr>currentSentence = 0, currentWord = 0, window_size = 1,
        vocab = [(''a'', 0, 1), (''b'', 1, 1), (''c'', 2, 1), (''d'', 3, 1),
                 (''e'', 4, 1), (''f'', 5, 1), (''g'', 6, 1)],
        data = [[0, 1, 2, 3], [4, 5, 6]]\<rparr>"
    by (simp add: ingest_defs)
  have toks: "length (concat (map PreprocessString [''a b c d'', ''e f g''])) < 2 ^ 64"
    by (simp add: tokenize_defs)
  have size: "Size (ingest (new_CBOWLoader 1) [''a b c d'', ''e f g'']) = 3"
    unfolding st by (simp add: Size_def u64_def)
  have "(1::nat) < 2 ^ 63" by simp
  from GetNext_enumerates_windows [OF this toks refl, of id 0, unfolded size, unfolded st]
  show ?thesis
    unfolding st by (simp add: windows_of_def window_def upt_conv_Cons)
qed

text \<open>
  Counterexample to claim C2 as stated: with window size \<open>2 ^ 63\<close> a fresh loader stores
  the one-word sentence \<open>a\<close>; \<^verbatim>\<open>Size()\<close> is 1 and \<^verbatim>\<open>IsDone()\<close> is false, and the first
  \<^verbatim>\<open>GetNext\<close> reads position \<open>2 ^ 63\<close> of a sentence of length 1.
\<close>

theorem GetNext_enumerates_windows_counterexample:
  "huge_window_example = ingest (new_CBOWLoader 9223372036854775808) [''a'']
   \<and> Size huge_window_example = 1
   \<and> \<not> IsDone huge_window_example
   \<and> GetNext_times id (0 :: nat) (Size huge_window_example) huge_window_example = Inl OutOfBounds"
proof -
  have size: "Size huge_window_example = 1"
    unfolding huge_window_example_eq by (simp add: Size_def u64_def)
  have active: "\<not> IsDone huge_window_example"
    unfolding huge_window_example_eq by (simp add: IsDone_def u64_def u64_sub_def)
  have "GetNext id (0 :: nat) huge_window_example = Inl OutOfBounds"
    unfolding huge_window_example_eq by (simp add: GetNext_def u64_def)
  then have "GetNext_times id (0 :: nat) (Suc 0) huge_window_example = Inl OutOfBounds"
    using active by simp
  then show ?thesis using size active by (simp add: huge_window_example_def)
qed

subsection \<open>Reachable loaders\<close>



lemma islower_tolower: "isalpha c \<Longrightarrow> islower (tolower c)"
  by (auto simp: isalpha_def islower_def isupper_def tolower_def less_eq_char_def)


lemma extract_words_are_words:
  assumes "\<forall>c \<in> set cs. islower c \<or> isspace c" "\<forall>c \<in> set word. islower c"
  shows "\<forall>k \<in> set (extract_words cs word). is_word k"
  using assms
proof (induction cs word rule: extract_words.induct)
  case (1 word)
  then show ?case by (simp add: is_word_def)
next
  case (2 c cs word)
  show ?case
  proof (cases "isspace c")
    case True
    then show ?thesis using 2 by (cases "word = []") (auto simp: is_word_def)
  next
    case False
    then have "islower c" using 2(4) by simp
    then show ?thesis using 2 False by simp
  qed
qed

lemma PreprocessString_words: "\<forall>k \<in> set (PreprocessString s). is_word k"
  unfolding PreprocessString_def
proof (rule extract_words_are_words)
  show "\<forall>c\<in>set (map (\<lambda>c. if isalpha c then tolower c else CHR '' '') s). islower c \<or> isspace c"
    by (auto simp: islower_tolower isspace_def)
qed simp

lemma AddData_consistent:
  assumes "consistent st"
  shows "consistent (snd (AddData s st))"
proof (cases "u64 (2 * window_size st + 1) \<le> length (PreprocessString s)")
  case False
  then have "AddData s st = (False, st)" by (intro AddData_short) simp
  then show ?thesis using assms by simp
next
  case True
  let ?toks = "PreprocessString s"
  from assms obtain h where h: "vocab_of h (vocab st)" "\<forall>k \<in> set h. is_word k"
    "\<forall>s \<in> set (data st). \<forall>i \<in> set s. i < length (vocab st)"
    by (auto simp: consistent_def)
  from AddData_vocab [OF h(1) True] obtain V' where V':
    "snd (AddData s st) = st\<lparr>vocab := V', data := data st @ [map (first_seen (h @ ?toks)) ?toks]\<rparr>"
    "vocab_of (h @ ?toks) V'" by blast
  have len: "length (vocab st) = card (set h)" "length V' = card (set (h @ ?toks))"
    using h(1) V'(2) by (simp_all only: vocab_of_length)
  have "card (set h) \<le> card (set (h @ ?toks))"
    by (intro card_mono) auto
  then have old: "\<forall>s \<in> set (data st). \<forall>i \<in> set s. i < length V'"
    using h(3) len by fastforce
  have new: "\<forall>i \<in> set (map (first_seen (h @ ?toks)) ?toks). i < length V'"
    using first_seen_less [of _ "h @ ?toks"] len(2) by auto
  have words: "\<forall>k \<in> set (h @ ?toks). is_word k"
    using h(2) PreprocessString_words [of s] by auto
  show ?thesis
    unfolding consistent_def V'(1) using V'(2) words old new
    by (intro exI [of _ "h @ ?toks"]) auto
qed

lemma ingest_consistent: "consistent st \<Longrightarrow> consistent (ingest st strs)"
  by (induction strs arbitrary: st) (simp_all add: ingest_def AddData_consistent)

lemma new_consistent: "consistent (new_CBOWLoader w)"
  unfolding consistent_def
  by (intro exI [of _ "[]"]) (simp add: new_CBOWLoader_def vocab_of_def)

lemma RemoveInfrequent_ingest:
  "RemoveInfrequent m st =
     (let nl = ingest (new_CBOWLoader (window_size st))
                 (map (rebuild_sentence (reverse_vocab (vocab st)) m) (data st))
      in st\<lparr>data := data nl, vocab := vocab nl\<rparr>)"
  by (simp add: RemoveInfrequent_def ingest_def Let_def foldl_map)

lemma RemoveInfrequent_consistent: "consistent (RemoveInfrequent m st)"
proof -
  let ?nl = "ingest (new_CBOWLoader (window_size st))
                 (map (rebuild_sentence (reverse_vocab (vocab st)) m) (data st))"
  have "consistent ?nl" using new_consistent by (rule ingest_consistent)
  then show ?thesis
    by (simp add: RemoveInfrequent_ingest Let_def consistent_def)
qed

lemma SetOffset_frame:
  assumes "SetOffset offset st = Inr st'"
  shows "vocab st' = vocab st" "data st' = data st" "window_size st' = window_size st"
  using assms
  by (auto simp: SetOffset_def split: if_splits sum.splits prod.splits)

lemma GetNext_frame:
  assumes "GetNext T t0 st = Inr (p, st')"
  shows "vocab st' = vocab st" "data st' = data st" "window_size st' = window_size st"
  using assms
  by (auto simp: GetNext_def Let_def split: if_splits sum.splits)

lemma reachable_consistent:
  assumes "reachable T t0 st"
  shows "consistent st"
  using assms
proof (induction rule: reachable.induct)
  case (constructed w)
  show ?case by (rule new_consistent)
next
  case (after_AddData st s)
  then show ?case by (simp add: AddData_consistent)
next
  case (after_RemoveInfrequent st m)
  show ?case by (rule RemoveInfrequent_consistent)
next
  case (after_Reset st st')
  from after_Reset(2) obtain d where d: "mset d = mset (data st)"
    "st' = st\<lparr>data := d, currentSentence := 0, currentWord := 0\<rparr>"
    by (auto elim: Reset.cases)
  have "set d = set (data st)" using d(1) by (rule mset_eq_setD)
  then show ?case using after_Reset(3) by (simp add: consistent_def d(2))
next
  case (after_SetOffset st offset st')
  then show ?case using SetOffset_frame(1,2) [OF after_SetOffset(2)]
    by (simp add: consistent_def)
next
  case (after_GetNext st p st')
  then show ?case using GetNext_frame(1,2) [OF after_GetNext(2)]
    by (simp add: consistent_def)
qed

lemma reachable_ingest: "reachable T t0 st \<Longrightarrow> reachable T t0 (ingest st strs)"
  by (induction strs arbitrary: st) (simp_all add: ingest_def reachable.after_AddData)

lemma pruning_example_reachable: "reachable T t0 pruning_example"
  unfolding pruning_example_def by (intro reachable_ingest reachable.constructed)

subsection \<open>\<^verbatim>\<open>WordFromIndex\<close>\<close>

lemma find_SomeD: "find P xs = Some x \<Longrightarrow> x \<in> set xs \<and> P x"
  by (induction xs) (auto split: if_splits)

lemma WordFromIndex_found:
  assumes d: "distinct (map (\<lambda>(k, i, f). i) (vocab st))" and e: "(k, i, f) \<in> set (vocab st)"
  shows "WordFromIndex i st = k"
proof -
  obtain e' where f: "find (\<lambda>(k, i', f). i' = i) (vocab st) = Some e'"
    using e by (cases "find (\<lambda>(k, i', f). i' = i) (vocab st)") (auto simp: find_None_iff)
  then have e': "e' \<in> set (vocab st)" "(\<lambda>(k, i', f). i') e' = i"
    using find_SomeD [OF f] by auto
  have "inj_on (\<lambda>(k, i, f). i) (set (vocab st))" using d by (simp add: distinct_map)
  moreover have "(\<lambda>(k, i, f). i) e' = (\<lambda>(k, i, f). i) (k, i, f)" using e'(2) by simp
  ultimately have "e' = (k, i, f)" using e'(1) e by (rule inj_onD)
  then show ?thesis using f by (simp add: WordFromIndex_def)
qed

lemma WordFromIndex_not_found:
  assumes "i \<notin> (\<lambda>(k, i, f). i) ` set (vocab st)"
  shows "WordFromIndex i st = []"
proof -
  have "find (\<lambda>(k, i', f). i' = i) (vocab st) = None"
    using assms by (force simp: find_None_iff)
  then show ?thesis by (simp add: WordFromIndex_def)
qed

lemma WordFromIndex_vocab: "vocab st' = vocab st \<Longrightarrow> WordFromIndex i st' = WordFromIndex i st"
  by (simp add: WordFromIndex_def)

text \<open>
  Claim C9. In every reachable loader state, also after a pruning rebuild,
  \<^verbatim>\<open>WordFromIndex\<close> applied to the index of a word of the vocabulary returns that word, and
  applied to an index that no entry of the vocabulary has it returns the empty string.
\<close>

theorem WordFromIndex_round_trip:
  assumes "reachable T t0 st"
  shows "(\<forall>(k, i, f) \<in> set (vocab st). WordFromIndex i st = k)
       \<and> (\<forall>i. i \<notin> (\<lambda>(k, i, f). i) ` set (vocab st) \<longrightarrow> WordFromIndex i st = [])"
proof -
  from reachable_consistent [OF assms] obtain h where "vocab_of h (vocab st)"
    by (auto simp: consistent_def)
  then have "distinct (map (\<lambda>(k, i, f). i) (vocab st))" by (rule vocab_of_indices)
  then show ?thesis
    using WordFromIndex_found [of st] WordFromIndex_not_found [of _ st] by blast
qed

theorem WordFromIndex_round_trip_witness:
  "WordFromIndex 1 (RemoveInfrequent 2 pruning_example) = ''end''
   \<and> WordFromIndex 4 (RemoveInfrequent 2 pruning_example) = []"
proof -
  have "reachable id (0 :: nat) (RemoveInfrequent 2 pruning_example)"
    by (intro reachable.after_RemoveInfrequent pruning_example_reachable)
  from WordFromIndex_round_trip [OF this] show ?thesis
    unfolding pruning_example_pruned by simp
qed

subsection \<open>\<^verbatim>\<open>RemoveInfrequent\<close>\<close>


















text \<open>
  Claim C10. \<^verbatim>\<open>RemoveInfrequent\<close> leaves \<^verbatim>\<open>currentSentence_\<close> and \<^verbatim>\<open>currentWord_\<close> (and
  the window size) as they were, for every loader and every threshold; only the corpus
  and the vocabulary are replaced. So the cursor that is kept can point past the end of
  the smaller corpus: there is a loader whose cursor is inside the corpus before the call
  and not after it.
\<close>

theorem RemoveInfrequent_cursor:
  "currentSentence (RemoveInfrequent m st) = currentSentence st
   \<and> currentWord (RemoveInfrequent m st) = currentWord st
   \<and> window_size (RemoveInfrequent m st) = window_size st
   \<and> (\<exists>st' m'. currentSentence st' < length (data st')
         \<and> length (data (RemoveInfrequent m' st')) \<le> currentSentence (RemoveInfrequent m' st'))"
proof -
  have "RemoveInfrequent 2 (pruning_example\<lparr>currentSentence := 1\<rparr>) =
     \<lparr>currentSentence = 1, currentWord = 0, window_size = 1,
      vocab = [(''end'', 1, 2), (''the'', 0, 2)],
      data = [[0, 1, 0, 1]]\<rparr>"
    unfolding pruning_example_eq
    by (simp add: RemoveInfrequent_def reverse_vocab_def rebuild_sentence_def Let_def ingest_defs)
  then have "currentSentence (pruning_example\<lparr>currentSentence := 1\<rparr>)
        < length (data (pruning_example\<lparr>currentSentence := 1\<rparr>))
      \<and> length (data (RemoveInfrequent 2 (pruning_example\<lparr>currentSentence := 1\<rparr>)))
        \<le> currentSentence (RemoveInfrequent 2 (pruning_example\<lparr>currentSentence := 1\<rparr>))"
    by (simp add: pruning_example_eq)
  then have "\<exists>st' m'. currentSentence st' < length (data st')
         \<and> length (data (RemoveInfrequent m' st')) \<le> currentSentence (RemoveInfrequent m' st')"
    by blast
  moreover have "currentSentence (RemoveInfrequent m st) = currentSentence st
   \<and> currentWord (RemoveInfrequent m st) = currentWord st
   \<and> window_size (RemoveInfrequent m st) = window_size st"
    by (simp add: RemoveInfrequent_def Let_def)
  ultimately show ?thesis by blast
qed

subsection \<open>\<^verbatim>\<open>SetOffset\<close>\<close>

text \<open>
  Claim C1 fails on the code. With window size 1 and the sentences \<open>a b c d e\<close> and
  \<open>f g h i j\<close>, \<^verbatim>\<open>Size()\<close> is 6 and six calls of \<^verbatim>\<open>GetNext\<close> return the six windows.
  \<^verbatim>\<open>SetOffset(3)\<close> on the fresh loader puts the cursor at word 3 of sentence 0, where no
  window fits and \<^verbatim>\<open>GetNext\<close> reads position 5 of a sentence of length 5; \<^verbatim>\<open>SetOffset(4)\<close>
  and \<^verbatim>\<open>SetOffset(5)\<close> both put it at the start of sentence 1, which is window 3.
\<close>

theorem SetOffset_partition_failure:
  "Size partition_example = 6
   \<and> GetNext_times id (0 :: nat) 6 partition_example
       = Inr ([([0, 2], 1), ([1, 3], 2), ([2, 4], 3), ([5, 7], 6), ([6, 8], 7), ([7, 9], 8)],
              partition_example\<lparr>currentSentence := 2\<rparr>)
   \<and> SetOffset 3 partition_example = Inr (partition_example\<lparr>currentWord := 3\<rparr>)
   \<and> GetNext id (0 :: nat) (partition_example\<lparr>currentWord := 3\<rparr>) = Inl OutOfBounds
   \<and> SetOffset 4 partition_example = Inr (partition_example\<lparr>currentSentence := 1\<rparr>)
   \<and> SetOffset 5 partition_example = Inr (partition_example\<lparr>currentSentence := 1\<rparr>)"
proof -
  have run: "GetNext_times id (0 :: nat) 6 partition_example
      = Inr ([([0, 2], 1), ([1, 3], 2), ([2, 4], 3), ([5, 7], 6), ([6, 8], 7), ([7, 9], 8)],
             partition_example\<lparr>currentSentence := 2\<rparr>)"
    unfolding partition_example_eq by (simp add: cursor_defs)
  have "Size partition_example = 6"
    unfolding partition_example_eq by (simp add: cursor_defs)
  moreover have "SetOffset 3 partition_example = Inr (partition_example\<lparr>currentWord := 3\<rparr>)"
    unfolding partition_example_eq by (simp add: cursor_defs)
  moreover have "GetNext id (0 :: nat) (partition_example\<lparr>currentWord := 3\<rparr>) = Inl OutOfBounds"
    unfolding partition_example_eq by (simp add: cursor_defs)
  moreover have "SetOffset 4 partition_example = Inr (partition_example\<lparr>currentSentence := 1\<rparr>)"
    unfolding partition_example_eq by (simp add: cursor_defs)
  moreover have "SetOffset 5 partition_example = Inr (partition_example\<lparr>currentSentence := 1\<rparr>)"
    unfolding partition_example_eq by (simp add: cursor_defs)
  ultimately show ?thesis using run by simp
qed

text \<open>
  Claim C6 fails on the code. With window size 1 and the sentence \<open>a b c\<close>, one call of
  \<^verbatim>\<open>GetNext\<close> moves the cursor to sentence 1, past the end of the corpus. \<^verbatim>\<open>Size()\<close> is
  still 1, and \<^verbatim>\<open>SetOffset(0)\<close> reads \<^verbatim>\<open>data_[1]\<close> of a vector of size 1.
\<close>

theorem SetOffset_out_of_bounds:
  "Size exhausted_example = 1
   \<and> GetNext id (0 :: nat) exhausted_example
       = Inr (([0, 2], 1), exhausted_example\<lparr>currentSentence := 1\<rparr>)
   \<and> Size (exhausted_example\<lparr>currentSentence := 1\<rparr>) = 1
   \<and> SetOffset 0 (exhausted_example\<lparr>currentSentence := 1\<rparr>) = Inl OutOfBounds"
  unfolding exhausted_example_eq by (simp add: cursor_defs)

end
